theory Spec2Isabelle
  imports
    Complex_Main
    "HOL-Library.AList"
    "HOL-Library.Multiset"
    "HOL-Library.Sublist"
    "HOL-Library.Char_ord"
    "HOL-Library.List_Lexorder"
begin

section \<open>JavaScript values used by the analysis engine\<close>

text \<open>
  A JavaScript string is a sequence of UTF-16 code units; \<open>length\<close> counts code units.
  String literals of the source are written with \<open>lit\<close>.
\<close>

type_synonym js_string = "nat list"

definition lit :: "string \<Rightarrow> js_string" where
  "lit s = map of_char s"

text \<open>
  The code units matched by the regular expression class \<open>\s\<close>; \<open>String.prototype.trim\<close>
  strips the same set (WhiteSpace and LineTerminator of ECMAScript).
\<close>

definition is_ws :: "nat \<Rightarrow> bool" where
  "is_ws c \<longleftrightarrow>
     c = 9 \<or> c = 10 \<or> c = 11 \<or> c = 12 \<or> c = 13 \<or> c = 32 \<or> c = 160 \<or> c = 5760 \<or>
     (8192 \<le> c \<and> c \<le> 8202) \<or> c = 8232 \<or> c = 8233 \<or> c = 8239 \<or> c = 8287 \<or>
     c = 12288 \<or> c = 65279"

definition trim :: "js_string \<Rightarrow> js_string" where
  "trim s = rev (dropWhile is_ws (rev (dropWhile is_ws s)))"

text \<open>
  \<open>s.split(/\s+/)\<close>: the pieces between the maximal whitespace runs; a leading or trailing
  run leaves an empty piece, and the empty string gives one empty piece.
\<close>

function split_ws :: "js_string \<Rightarrow> js_string list" where
  "split_ws s =
     (let tok = takeWhile (\<lambda>c. \<not> is_ws c) s;
          rest = dropWhile (\<lambda>c. \<not> is_ws c) s
      in if rest = [] then [tok] else tok # split_ws (dropWhile is_ws rest))"
  by pat_completeness auto
termination
proof (relation "measure length")
  show "wf (measure length)" by simp
next
  fix s :: js_string and tok rest
  assume r: "rest = dropWhile (\<lambda>c. \<not> is_ws c) s" and ne: "rest \<noteq> []"
  from ne obtain c cs where rc: "rest = c # cs" by (cases rest) auto
  have "length (dropWhile is_ws rest) \<le> length rest" by (rule length_dropWhile_le)
  moreover have "is_ws c"
  proof -
    have "dropWhile (\<lambda>c. \<not> is_ws c) s \<noteq> []" using r ne by simp
    from hd_dropWhile[OF this] show ?thesis using r rc by (metis list.sel(1))
  qed
  then have "dropWhile is_ws rest = dropWhile is_ws cs" using rc by simp
  then have "length (dropWhile is_ws rest) < length rest"
    using length_dropWhile_le[of is_ws cs] rc by simp
  moreover have "length rest \<le> length s" using r by (simp add: length_dropWhile_le)
  ultimately show "(dropWhile is_ws rest, s) \<in> measure length" by simp
qed

declare split_ws.simps [simp del]

text \<open>
  A JavaScript number, as far as a division of two counts decides it: the exact quotient,
  or \<open>NaN\<close> or \<open>Infinity\<close> when the divisor is zero. Counts are natural numbers; the
  rounding of doubles is not modelled.
\<close>

datatype js_number = Finite rat | NaN | Infinity

definition js_div :: "nat \<Rightarrow> nat \<Rightarrow> js_number" where
  "js_div a b =
     (if b = 0 then (if a = 0 then NaN else Infinity) else Finite (of_nat a / of_nat b))"

text \<open>
  \<open>Array.prototype.sort(cmp)\<close> is stable; with a consistent comparator every stable
  sort gives the same array. Insertion from the right keeps equal elements in order.
\<close>

fun insert_cmp :: "('a \<Rightarrow> 'a \<Rightarrow> int) \<Rightarrow> 'a \<Rightarrow> 'a list \<Rightarrow> 'a list" where
  "insert_cmp cmp x [] = [x]"
| "insert_cmp cmp x (y # ys) =
     (if cmp x y \<le> 0 then x # y # ys else y # insert_cmp cmp x ys)"

definition js_sort :: "('a \<Rightarrow> 'a \<Rightarrow> int) \<Rightarrow> 'a list \<Rightarrow> 'a list" where
  "js_sort cmp xs = foldr (insert_cmp cmp) xs []"

section \<open>Document tree model (lib/ecfr/types)\<close>

datatype StructureNodeType =
  Title | Subtitle | Chapter | Subchapter | Part | Subpart | Subject | Section | Appendix

fun type_name :: "StructureNodeType \<Rightarrow> string" where
  "type_name Title = ''title''"
| "type_name Subtitle = ''subtitle''"
| "type_name Chapter = ''chapter''"
| "type_name Subchapter = ''subchapter''"
| "type_name Part = ''part''"
| "type_name Subpart = ''subpart''"
| "type_name Subject = ''subject''"
| "type_name Section = ''section''"
| "type_name Appendix = ''appendix''"

text \<open>
  \<open>a.localeCompare(b)\<close> on the type tags. The tags are lower-case ASCII words, on which
  the collation order is the lexicographic order of the characters.
\<close>

definition localeCompare :: "string \<Rightarrow> string \<Rightarrow> int" where
  "localeCompare a b = (if a < b then - 1 else if a = b then 0 else 1)"

datatype StructureNode =
  StructureNode
    (node_title: "nat option")
    (node_identifier: js_string)
    (node_type: StructureNodeType)
    (node_label: "js_string option")
    (node_content: "js_string option")
    (node_text: "js_string option")
    (node_children: "StructureNode list option")

section \<open>Word count analysis (lib/analysis/word-count)\<close>

record ElementWordCount =
  el_identifier :: js_string
  el_type :: StructureNodeType
  label :: "js_string option"
  wordCount :: nat
  characterCount :: nat

record HierarchyData =
  d_count :: nat
  d_totalWords :: nat

record HierarchyWordCount =
  h_type :: StructureNodeType
  h_count :: nat
  h_totalWords :: nat
  averageWords :: js_number

record WordCountResult =
  r_title :: "nat option"
  titleName :: "js_string option"
  totalWords :: nat
  totalCharacters :: nat
  totalElements :: nat
  byHierarchy :: "HierarchyWordCount list"
  topElements :: "ElementWordCount list"
  sections :: "ElementWordCount list"

text \<open>\<open>countWords\<close>: an absent or empty text has no words.\<close>

definition countWords :: "js_string option \<Rightarrow> nat" where
  "countWords text =
     (case text of
        None \<Rightarrow> 0
      | Some t \<Rightarrow> if t = [] then 0
                  else length (filter (\<lambda>w. w \<noteq> []) (split_ws (trim t))))"

text \<open>\<open>getNodeContent\<close>: a field counts only when it is present and not the empty string.\<close>

definition getNodeContent :: "StructureNode \<Rightarrow> js_string" where
  "getNodeContent node =
     (let content0 = [];
          content1 = (case node_content node of
                        Some c \<Rightarrow> if c \<noteq> [] then content0 @ c else content0
                      | None \<Rightarrow> content0);
          content2 = (case node_text node of
                        Some t \<Rightarrow> if t \<noteq> [] then content1 @ lit '' '' @ t else content1
                      | None \<Rightarrow> content1)
      in trim content2)"

text \<open>The record \<open>elementCount\<close> that \<open>processNode\<close> builds for a node.\<close>

definition elementCount :: "StructureNode \<Rightarrow> ElementWordCount" where
  "elementCount node =
     (let content = getNodeContent node;
          wordCount = countWords (Some content);
          characterCount = length content
      in \<lparr>el_identifier = node_identifier node, el_type = node_type node,
          label = node_label node, wordCount = wordCount, characterCount = characterCount\<rparr>)"

text \<open>
  The two accumulators that \<open>processNode\<close> mutates: the array \<open>elements\<close> and the
  insertion-ordered \<open>Map\<close> \<open>hierarchyCounts\<close>.
\<close>

record walk_state =
  elements :: "ElementWordCount list"
  hierarchyCounts :: "(StructureNodeType \<times> HierarchyData) list"

definition updateHierarchy ::
  "StructureNodeType \<Rightarrow> nat \<Rightarrow> (StructureNodeType \<times> HierarchyData) list
     \<Rightarrow> (StructureNodeType \<times> HierarchyData) list" where
  "updateHierarchy hierarchyKey words hc =
     (let existing = (case map_of hc hierarchyKey of
                        Some d \<Rightarrow> d
                      | None \<Rightarrow> \<lparr>d_count = 0, d_totalWords = 0\<rparr>)
      in AList.update hierarchyKey
           \<lparr>d_count = d_count existing + 1, d_totalWords = d_totalWords existing + words\<rparr> hc)"

function processNode :: "StructureNode \<Rightarrow> walk_state \<Rightarrow> nat \<times> walk_state"
  and processChildren :: "StructureNode list \<Rightarrow> nat \<Rightarrow> walk_state \<Rightarrow> nat \<times> walk_state"
where
  "processNode node st =
     (let el = elementCount node;
          st1 = st\<lparr>elements := elements st @ [el]\<rparr>;
          st2 = st1\<lparr>hierarchyCounts :=
                  updateHierarchy (node_type node) (wordCount el) (hierarchyCounts st1)\<rparr>;
          (childWordsTotal, st3) =
             (case node_children node of
                Some cs \<Rightarrow> processChildren cs 0 st2
              | None \<Rightarrow> (0, st2))
      in (wordCount el + childWordsTotal, st3))"
| "processChildren [] childWordsTotal st = (childWordsTotal, st)"
| "processChildren (child # rest) childWordsTotal st =
     (let (w, st') = processNode child st
      in processChildren rest (childWordsTotal + w) st')"
  by pat_completeness auto
termination
  by (relation "measure (\<lambda>x. case x of
          Inl (node, st) \<Rightarrow> 2 * size node
        | Inr (cs, acc, st) \<Rightarrow> 2 * size_list size cs + 1)")
     (auto split: option.splits, (case_tac node, auto)+)


definition analyzeWordCount :: "StructureNode \<Rightarrow> WordCountResult" where
  "analyzeWordCount structure =
     (let (total, st) = processNode structure \<lparr>elements = [], hierarchyCounts = []\<rparr>;
          els = elements st;
          chars = foldl (\<lambda>sum el. sum + characterCount el) 0 els;
          hier = js_sort (\<lambda>a b. localeCompare (type_name (h_type a)) (type_name (h_type b)))
                   (map (\<lambda>(ty, data).
                           \<lparr>h_type = ty, h_count = d_count data, h_totalWords = d_totalWords data,
                            averageWords = (if d_count data > 0
                                            then js_div (d_totalWords data) (d_count data)
                                            else Finite 0)\<rparr>)
                        (hierarchyCounts st));
          top = take 10 (js_sort (\<lambda>a b. int (wordCount b) - int (wordCount a)) els);
          secs = filter (\<lambda>el. el_type el = Section) els
      in \<lparr>r_title = node_title structure, titleName = node_label structure,
          totalWords = total, totalCharacters = chars, totalElements = length els,
          byHierarchy = hier, topElements = top, sections = secs\<rparr>)"

definition analyzeMultipleTitles :: "StructureNode list \<Rightarrow> WordCountResult list" where
  "analyzeMultipleTitles structures = map analyzeWordCount structures"

text \<open>The accumulators of a fresh analysis, and the records it produces for a tree.\<close>

definition producedElements :: "StructureNode \<Rightarrow> ElementWordCount list" where
  "producedElements structure =
     elements (snd (processNode structure \<lparr>elements = [], hierarchyCounts = []\<rparr>))"

text \<open>The hierarchy update of one visit.\<close>

definition visit ::
  "StructureNode \<Rightarrow> (StructureNodeType \<times> HierarchyData) list
     \<Rightarrow> (StructureNodeType \<times> HierarchyData) list" where
  "visit n hc = updateHierarchy (node_type n) (wordCount (elementCount n)) hc"

text \<open>The entry of a type in \<open>hierarchyCounts\<close>, with the default of a missing key.\<close>

definition hdata :: "(StructureNodeType \<times> HierarchyData) list \<Rightarrow> StructureNodeType \<Rightarrow> HierarchyData" where
  "hdata hc ty = (case map_of hc ty of Some d \<Rightarrow> d | None \<Rightarrow> \<lparr>d_count = 0, d_totalWords = 0\<rparr>)"

text \<open>The record that \<open>analyzeWordCount\<close> makes of an entry of \<open>hierarchyCounts\<close>.\<close>

definition hrecord :: "StructureNodeType \<times> HierarchyData \<Rightarrow> HierarchyWordCount" where
  "hrecord = (\<lambda>(ty, data).
      \<lparr>h_type = ty, h_count = d_count data, h_totalWords = d_totalWords data,
       averageWords = (if d_count data > 0
                       then js_div (d_totalWords data) (d_count data)
                       else Finite 0)\<rparr>)"

subsection \<open>Summary projection\<close>

datatype js_error = TypeError

record WordCountSummary =
  s_titleCount :: nat
  s_totalWords :: nat
  s_totalElements :: nat
  averageWordsPerTitle :: js_number
  longestTitle :: "WordCountResult option"
  shortestTitle :: "WordCountResult option"

text \<open>\<open>xs.reduce(f, init)\<close> with a callback that can throw.\<close>

fun reduce_e :: "('b \<Rightarrow> 'a \<Rightarrow> js_error + 'b) \<Rightarrow> 'b \<Rightarrow> 'a list \<Rightarrow> js_error + 'b" where
  "reduce_e f acc [] = Inr acc"
| "reduce_e f acc (x # xs) =
     (case f acc x of Inl e \<Rightarrow> Inl e | Inr acc' \<Rightarrow> reduce_e f acc' xs)"

text \<open>\<open>results[0]\<close>: reading index 0 of an empty array gives \<open>undefined\<close>, here \<open>None\<close>.\<close>

definition first_result :: "WordCountResult list \<Rightarrow> WordCountResult option" where
  "first_result results = (case results of [] \<Rightarrow> None | r # _ \<Rightarrow> Some r)"

text \<open>
  The two callbacks read \<open>totalWords\<close> of the accumulator, which throws a
  \<open>TypeError\<close> when the accumulator is \<open>undefined\<close>.
\<close>

definition longer :: "WordCountResult option \<Rightarrow> WordCountResult \<Rightarrow> js_error + WordCountResult option" where
  "longer mx r =
     (case mx of
        None \<Rightarrow> Inl TypeError
      | Some m \<Rightarrow> Inr (Some (if totalWords r > totalWords m then r else m)))"

definition shorter :: "WordCountResult option \<Rightarrow> WordCountResult \<Rightarrow> js_error + WordCountResult option" where
  "shorter mn r =
     (case mn of
        None \<Rightarrow> Inl TypeError
      | Some m \<Rightarrow> Inr (Some (if totalWords r < totalWords m then r else m)))"

definition getWordCountSummary :: "WordCountResult list \<Rightarrow> js_error + WordCountSummary" where
  "getWordCountSummary results =
     (let tw = foldl (\<lambda>sum r. sum + totalWords r) 0 results;
          te = foldl (\<lambda>sum r. sum + totalElements r) 0 results;
          avg = (if length results > 0 then js_div tw (length results) else Finite 0)
      in case reduce_e longer (first_result results) results of
           Inl e \<Rightarrow> Inl e
         | Inr longest \<Rightarrow>
             (case reduce_e shorter (first_result results) results of
                Inl e \<Rightarrow> Inl e
              | Inr shortest \<Rightarrow>
                  Inr \<lparr>s_titleCount = length results, s_totalWords = tw, s_totalElements = te,
                       averageWordsPerTitle = avg, longestTitle = longest,
                       shortestTitle = shortest\<rparr>))"

subsection \<open>The tree and the own text, as the specification words them\<close>

text \<open>All nodes of a tree, depth first, a node before its children.\<close>

function preorder :: "StructureNode \<Rightarrow> StructureNode list"
  and preorder_list :: "StructureNode list \<Rightarrow> StructureNode list"
where
  "preorder node =
     node # (case node_children node of Some cs \<Rightarrow> preorder_list cs | None \<Rightarrow> [])"
| "preorder_list [] = []"
| "preorder_list (child # rest) = preorder child @ preorder_list rest"
  by pat_completeness auto
termination
  by (relation "measure (\<lambda>x. case x of
          Inl node \<Rightarrow> 2 * size node
        | Inr cs \<Rightarrow> 2 * size_list size cs + 1)")
     (auto split: option.splits, (case_tac node, auto)+)

text \<open>The proper descendants of a node.\<close>

definition descendants :: "StructureNode \<Rightarrow> StructureNode list" where
  "descendants node = (case node_children node of Some cs \<Rightarrow> preorder_list cs | None \<Rightarrow> [])"

text \<open>
  The own text: the content field if present, then the text field if present,
  joined by a space, trimmed.
\<close>

definition own_text :: "StructureNode \<Rightarrow> js_string" where
  "own_text node =
     trim ((case node_content node of Some c \<Rightarrow> c | None \<Rightarrow> []) @
           (case node_text node of Some t \<Rightarrow> lit '' '' @ t | None \<Rightarrow> []))"

text \<open>
  The number of maximal runs of non-whitespace code units; the flag says whether the
  previous code unit belongs to a run.
\<close>

fun count_runs :: "bool \<Rightarrow> js_string \<Rightarrow> nat" where
  "count_runs in_run [] = 0"
| "count_runs in_run (c # cs) =
     (if is_ws c then count_runs False cs
      else (if in_run then 0 else 1) + count_runs True cs)"

definition word_runs :: "js_string \<Rightarrow> nat" where
  "word_runs s = count_runs False s"


section \<open>Agency statistics (lib/analysis/agency-stats)\<close>

record CfrReference =
  ref_title :: nat
  ref_chapter :: "js_string option"
  ref_part :: "js_string option"

datatype Agency =
  Agency
    (agency_name: js_string)
    (short_name: "js_string option")
    (agency_slug: js_string)
    (cfr_references: "CfrReference list option")
    (agency_children: "Agency list option")

record TitleEntry =
  t_number :: nat
  t_name :: js_string
  reserved :: bool

record AgencyStat =
  stat_name :: js_string
  stat_slug :: js_string
  shortName :: "js_string option"
  titleCount :: nat
  chapterCount :: nat
  partCount :: nat
  stat_titles :: "nat list"

record TitleDistribution =
  titleNumber :: nat
  td_titleName :: js_string
  agencyCount :: nat
  td_agencies :: "js_string list"

record AgencyStatsResult =
  totalAgencies :: nat
  agenciesWithReferences :: nat
  totalTitles :: nat
  averageTitlesPerAgency :: js_number
  topAgencies :: "AgencyStat list"
  titleDistribution :: "TitleDistribution list"

text \<open>\<open>Set.add\<close> on an insertion-ordered \<open>Set\<close>.\<close>

definition set_add :: "'a \<Rightarrow> 'a list \<Rightarrow> 'a list" where
  "set_add x xs = (if x \<in> set xs then xs else xs @ [x])"

text \<open>The decimal digits of a number, as a template literal prints it.\<close>

function number_to_string :: "nat \<Rightarrow> js_string" where
  "number_to_string n =
     (if n < 10 then [48 + n] else number_to_string (n div 10) @ [48 + n mod 10])"
  by pat_completeness auto
termination
  by (relation "measure id") auto

declare number_to_string.simps [simp del]

record reference_sets =
  titles :: "nat list"
  chapters :: "js_string list"
  parts :: "js_string list"

definition addReference :: "CfrReference \<Rightarrow> reference_sets \<Rightarrow> reference_sets" where
  "addReference ref sets =
     (let s1 = sets\<lparr>titles := set_add (ref_title ref) (titles sets)\<rparr>;
          s2 = (case ref_chapter ref of
                  Some c \<Rightarrow>
                    if c \<noteq> []
                    then s1\<lparr>chapters :=
                           set_add (number_to_string (ref_title ref) @ lit ''-'' @ c) (chapters s1)\<rparr>
                    else s1
                | None \<Rightarrow> s1)
      in (case ref_part ref of
            Some p \<Rightarrow>
              if p \<noteq> []
              then s2\<lparr>parts :=
                     set_add (number_to_string (ref_title ref) @ lit ''-'' @ p) (parts s2)\<rparr>
              else s2
          | None \<Rightarrow> s2))"

definition referenceSets :: "Agency \<Rightarrow> reference_sets" where
  "referenceSets agency =
     (case cfr_references agency of
        Some refs \<Rightarrow> fold addReference refs \<lparr>titles = [], chapters = [], parts = []\<rparr>
      | None \<Rightarrow> \<lparr>titles = [], chapters = [], parts = []\<rparr>)"

text \<open>The record that \<open>processAgency\<close> stores for an agency.\<close>

definition agencyStat :: "Agency \<Rightarrow> AgencyStat" where
  "agencyStat agency =
     (let sets = referenceSets agency
      in \<lparr>stat_name = agency_name agency, stat_slug = agency_slug agency,
          shortName = short_name agency, titleCount = length (titles sets),
          chapterCount = length (chapters sets), partCount = length (parts sets),
          stat_titles = js_sort (\<lambda>a b. int a - int b) (titles sets)\<rparr>)"

function processAgency :: "Agency \<Rightarrow> (js_string \<times> AgencyStat) list \<Rightarrow> (js_string \<times> AgencyStat) list"
  and processAgencies :: "Agency list \<Rightarrow> (js_string \<times> AgencyStat) list \<Rightarrow> (js_string \<times> AgencyStat) list"
where
  "processAgency agency results =
     (let results1 = (if length (titles (referenceSets agency)) > 0
                      then AList.update (agency_slug agency) (agencyStat agency) results
                      else results)
      in (case agency_children agency of
            Some cs \<Rightarrow> if length cs > 0 then processAgencies cs results1 else results1
          | None \<Rightarrow> results1))"
| "processAgencies [] results = results"
| "processAgencies (child # rest) results = processAgencies rest (processAgency child results)"
  by pat_completeness auto
termination
  by (relation "measure (\<lambda>x. case x of
          Inl (agency, results) \<Rightarrow> 2 * size agency
        | Inr (cs, results) \<Rightarrow> 2 * size_list size cs + 1)")
     (auto split: option.splits, (case_tac agency, auto)+)

text \<open>
  The \<open>Map\<close> filled by the loop over the roots, which \<open>analyzeAgencyStats\<close>,
  \<open>getAgencyBySlug\<close> and \<open>getAgenciesForTitle\<close> all run first.
\<close>

definition agencyStats :: "Agency list \<Rightarrow> (js_string \<times> AgencyStat) list" where
  "agencyStats agencies = processAgencies agencies []"

definition addTitleAgency ::
  "js_string \<Rightarrow> nat \<Rightarrow> (nat \<times> js_string list) list \<Rightarrow> (nat \<times> js_string list) list" where
  "addTitleAgency slug titleNum m =
     (let m1 = (if map_of m titleNum = None then AList.update titleNum [] m else m)
      in (case map_of m1 titleNum of
            Some slugs \<Rightarrow> AList.update titleNum (set_add slug slugs) m1
          | None \<Rightarrow> m1))"

definition titleAgenciesMap :: "AgencyStat list \<Rightarrow> (nat \<times> js_string list) list" where
  "titleAgenciesMap allStats =
     fold (\<lambda>stat m. fold (addTitleAgency (stat_slug stat)) (stat_titles stat) m) allStats []"

definition analyzeAgencyStats :: "Agency list \<Rightarrow> TitleEntry list option \<Rightarrow> AgencyStatsResult" where
  "analyzeAgencyStats agencies titles_opt =
     (let allStats = map snd (agencyStats agencies);
          total = length agencies;
          withRefs = length allStats;
          nTitles = (case titles_opt of Some ts \<Rightarrow> length ts | None \<Rightarrow> 50);
          totalTitleReferences = foldl (\<lambda>sum stat. sum + titleCount stat) 0 allStats;
          avg = (if withRefs > 0 then js_div totalTitleReferences withRefs else Finite 0);
          top = take 10 (js_sort (\<lambda>a b. int (titleCount b) - int (titleCount a)) allStats);
          dist = js_sort (\<lambda>a b. int (agencyCount b) - int (agencyCount a))
                   (map (\<lambda>(n, slugs).
                           (let entry = (case titles_opt of
                                           Some ts \<Rightarrow> find (\<lambda>t. t_number t = n) ts
                                         | None \<Rightarrow> None)
                            in \<lparr>titleNumber = n,
                                td_titleName =
                                  (case entry of
                                     Some t \<Rightarrow> if t_name t \<noteq> [] then t_name t
                                                else lit ''Title '' @ number_to_string n
                                   | None \<Rightarrow> lit ''Title '' @ number_to_string n),
                                agencyCount = length slugs, td_agencies = slugs\<rparr>))
                        (titleAgenciesMap allStats))
      in \<lparr>totalAgencies = total, agenciesWithReferences = withRefs, totalTitles = nTitles,
          averageTitlesPerAgency = avg, topAgencies = top, titleDistribution = dist\<rparr>)"

definition getAgencyBySlug :: "Agency list \<Rightarrow> js_string \<Rightarrow> AgencyStat option" where
  "getAgencyBySlug agencies slug = map_of (agencyStats agencies) slug"

definition getAgenciesForTitle :: "Agency list \<Rightarrow> nat \<Rightarrow> AgencyStat list" where
  "getAgenciesForTitle agencies n =
     filter (\<lambda>stat. n \<in> set (stat_titles stat)) (map snd (agencyStats agencies))"

subsection \<open>The forest walk, as the specification words it\<close>

text \<open>All agency nodes of a forest in visiting order: depth first, a node before its children.\<close>

function visited :: "Agency \<Rightarrow> Agency list"
  and visited_list :: "Agency list \<Rightarrow> Agency list"
where
  "visited agency =
     agency # (case agency_children agency of Some cs \<Rightarrow> visited_list cs | None \<Rightarrow> [])"
| "visited_list [] = []"
| "visited_list (child # rest) = visited child @ visited_list rest"
  by pat_completeness auto
termination
  by (relation "measure (\<lambda>x. case x of
          Inl agency \<Rightarrow> 2 * size agency
        | Inr cs \<Rightarrow> 2 * size_list size cs + 1)")
     (auto split: option.splits, (case_tac agency, auto)+)

text \<open>The distinct-title set of the node is not empty.\<close>

definition has_references :: "Agency \<Rightarrow> bool" where
  "has_references agency \<longleftrightarrow> titles (referenceSets agency) \<noteq> []"

text \<open>The visited nodes that store a record, in visiting order.\<close>

definition emitting :: "Agency list \<Rightarrow> Agency list" where
  "emitting agencies = filter has_references (visited_list agencies)"

text \<open>What the visit of one node does to the \<open>Map\<close>.\<close>

definition store :: "Agency \<Rightarrow> (js_string \<times> AgencyStat) list \<Rightarrow> (js_string \<times> AgencyStat) list" where
  "store agency results =
     (if has_references agency
      then AList.update (agency_slug agency) (agencyStat agency) results
      else results)"

text \<open>The last node of a list with a given slug.\<close>

definition last_with_slug :: "js_string \<Rightarrow> Agency list \<Rightarrow> Agency option" where
  "last_with_slug s nodes = find (\<lambda>a. agency_slug a = s) (rev nodes)"


section \<open>Retry with exponential backoff (scripts/utils/retry)\<close>

text \<open>An \<open>Error\<close> object: its message, and its \<open>status\<close> property when it has one.\<close>

record js_Error =
  message :: js_string
  status :: "int option"

text \<open>A thrown value: an \<open>Error\<close> instance, or any other value with its \<open>String\<close> rendering.\<close>

datatype js_thrown = ErrorObject js_Error | OtherValue js_string

datatype 'a settled = Resolved 'a | Rejected js_thrown

text \<open>\<open>RETRY_CONFIG\<close> of lib/ecfr/constants.\<close>

definition RETRY_CONFIG_maxAttempts :: nat where "RETRY_CONFIG_maxAttempts = 3"
definition RETRY_CONFIG_initialDelay :: nat where "RETRY_CONFIG_initialDelay = 1000"
definition RETRY_CONFIG_maxDelay :: nat where "RETRY_CONFIG_maxDelay = 10000"
definition RETRY_CONFIG_factor :: nat where "RETRY_CONFIG_factor = 2"

text \<open>\<open>onRetry\<close> says whether a callback is supplied; its calls are recorded in the trace.\<close>

record RetryOptions =
  maxAttempts :: "nat option"
  initialDelay :: "nat option"
  maxDelay :: "nat option"
  factor :: "nat option"
  onRetry :: bool

text \<open>What a run does besides returning: the calls of \<open>fn\<close>, of \<open>onRetry\<close> and of \<open>sleep\<close>.\<close>

record retry_trace =
  calls :: nat
  notified :: "(nat \<times> js_Error) list"
  slept :: "nat list"

definition to_Error :: "js_thrown \<Rightarrow> js_Error" where
  "to_Error e = (case e of ErrorObject err \<Rightarrow> err | OtherValue s \<Rightarrow> \<lparr>message = s, status = None\<rparr>)"

text \<open>
  The \<open>for\<close> loop of \<open>retryWithBackoff\<close>; \<open>fn k\<close> is how the call of attempt \<open>k\<close> settles.
\<close>

function retry_loop ::
  "(nat \<Rightarrow> 'a settled) \<Rightarrow> nat \<Rightarrow> nat \<Rightarrow> nat \<Rightarrow> bool \<Rightarrow> nat \<Rightarrow> nat \<Rightarrow> js_Error option
     \<Rightarrow> retry_trace \<Rightarrow> (js_Error + 'a) \<times> retry_trace" where
  "retry_loop fn maxA maxD fac notify attempt delay lastError tr =
     (if attempt \<le> maxA then
        (let tr1 = tr\<lparr>calls := calls tr + 1\<rparr>
         in case fn attempt of
              Resolved v \<Rightarrow> (Inr v, tr1)
            | Rejected e \<Rightarrow>
                (let err = to_Error e
                 in if attempt = maxA then (Inl err, tr1)
                    else
                      (let tr2 = (if notify
                                  then tr1\<lparr>notified := notified tr1 @ [(attempt, err)]\<rparr>
                                  else tr1);
                           tr3 = tr2\<lparr>slept := slept tr2 @ [min delay maxD]\<rparr>
                       in retry_loop fn maxA maxD fac notify (attempt + 1) (delay * fac)
                            (Some err) tr3)))
      else (Inl (case lastError of
                   Some e \<Rightarrow> e
                 | None \<Rightarrow> \<lparr>message = lit ''Retry failed with unknown error'', status = None\<rparr>),
            tr))"
  by pat_completeness auto
termination
  by (relation "measure (\<lambda>(fn, maxA, maxD, fac, notify, attempt, delay, lastError, tr).
          Suc maxA - attempt)") auto

declare retry_loop.simps [simp del]

definition retryWithBackoff ::
  "(nat \<Rightarrow> 'a settled) \<Rightarrow> RetryOptions \<Rightarrow> (js_Error + 'a) \<times> retry_trace" where
  "retryWithBackoff fn options =
     (let maxA = (case maxAttempts options of Some n \<Rightarrow> n | None \<Rightarrow> RETRY_CONFIG_maxAttempts);
          initD = (case initialDelay options of Some n \<Rightarrow> n | None \<Rightarrow> RETRY_CONFIG_initialDelay);
          maxD = (case maxDelay options of Some n \<Rightarrow> n | None \<Rightarrow> RETRY_CONFIG_maxDelay);
          fac = (case factor options of Some n \<Rightarrow> n | None \<Rightarrow> RETRY_CONFIG_factor)
      in retry_loop fn maxA maxD fac (onRetry options) 1 initD None
           \<lparr>calls = 0, notified = [], slept = []\<rparr>)"

text \<open>\<open>s.includes(sub)\<close>: \<open>sub\<close> occurs in \<open>s\<close> as a contiguous part.\<close>

fun js_includes :: "js_string \<Rightarrow> js_string \<Rightarrow> bool" where
  "js_includes [] sub = (sub = [])"
| "js_includes (c # cs) sub = (prefix sub (c # cs) \<or> js_includes cs sub)"

definition isRetryableError :: "js_thrown \<Rightarrow> bool" where
  "isRetryableError error =
     (case error of
        OtherValue v \<Rightarrow> False
      | ErrorObject err \<Rightarrow>
          if js_includes (message err) (lit ''fetch failed'') \<or>
             js_includes (message err) (lit ''ECONNREFUSED'') \<or>
             js_includes (message err) (lit ''ETIMEDOUT'') \<or>
             js_includes (message err) (lit ''ENOTFOUND'')
          then True
          else (case status err of
                  Some st \<Rightarrow> st = 429 \<or> (st \<ge> 500 \<and> st < 600)
                | None \<Rightarrow> False))"

text \<open>The options of a call that passes none.\<close>

definition no_options :: RetryOptions where
  "no_options = \<lparr>maxAttempts = None, initialDelay = None, maxDelay = None, factor = None,
                  onRetry = False\<rparr>"

text \<open>The first attempt among \<open>1, \<dots>, n\<close> whose call resolves.\<close>

definition is_resolved :: "'a settled \<Rightarrow> bool" where
  "is_resolved r = (case r of Resolved v \<Rightarrow> True | Rejected e \<Rightarrow> False)"

definition first_resolved :: "(nat \<Rightarrow> 'a settled) \<Rightarrow> nat \<Rightarrow> nat option" where
  "first_resolved fn n = find (\<lambda>k. is_resolved (fn k)) [1..<Suc n]"


text \<open>How a settled call shows to the caller of \<open>retryWithBackoff\<close>.\<close>

definition outcome :: "'a settled \<Rightarrow> js_Error + 'a" where
  "outcome r = (case r of Resolved v \<Rightarrow> Inr v | Rejected e \<Rightarrow> Inl (to_Error e))"

text \<open>The number of attempts a call allows.\<close>

definition allowedAttempts :: "RetryOptions \<Rightarrow> nat" where
  "allowedAttempts options =
     (case maxAttempts options of Some n \<Rightarrow> n | None \<Rightarrow> RETRY_CONFIG_maxAttempts)"

text \<open>
  The first attempt from \<open>a\<close> on that resolves, or the last allowed attempt \<open>n\<close> when none
  does; \<open>last_attempt\<close> starts from attempt 1.
\<close>

definition attempt_from :: "(nat \<Rightarrow> 'a settled) \<Rightarrow> nat \<Rightarrow> nat \<Rightarrow> nat" where
  "attempt_from fn a n = (case find (\<lambda>k. is_resolved (fn k)) [a..<Suc n] of Some k \<Rightarrow> k | None \<Rightarrow> n)"

definition last_attempt :: "(nat \<Rightarrow> 'a settled) \<Rightarrow> nat \<Rightarrow> nat" where
  "last_attempt fn n = (case first_resolved fn n of Some k \<Rightarrow> k | None \<Rightarrow> n)"

section \<open>Example inputs\<close>

definition section_node :: "string \<Rightarrow> string \<Rightarrow> StructureNode" where
  "section_node ident content =
     StructureNode None (lit ident) Section None (Some (lit content)) None None"

definition small_tree :: StructureNode where
  "small_tree =
     StructureNode (Some 17) (lit ''t'') Title None None None
       (Some [StructureNode None (lit ''c'') Chapter None None None
                (Some [section_node ''s'' ''a b''])])"

definition big_tree :: StructureNode where
  "big_tree =
     StructureNode (Some 17) (lit ''t'') Title None None None
       (Some [section_node ''0'' ''a'', section_node ''1'' ''a b'', section_node ''2'' ''a'',
              section_node ''3'' ''a b'', section_node ''4'' ''a'', section_node ''5'' ''a b'',
              section_node ''6'' ''a'', section_node ''7'' ''a b'', section_node ''8'' ''a'',
              section_node ''9'' ''a b''])"

text \<open>An agency with one reference, to the given title, and the given children.\<close>

definition agency_node :: "string \<Rightarrow> nat \<Rightarrow> Agency list option \<Rightarrow> Agency" where
  "agency_node slug n cs =
     Agency (lit ''Agency'') None (lit slug)
       (Some [\<lparr>ref_title = n, ref_chapter = None, ref_part = None\<rparr>]) cs"

text \<open>A parent with one child, and two roots that share a slug.\<close>

definition family_forest :: "Agency list" where
  "family_forest = [agency_node ''a'' 5 (Some [agency_node ''b'' 10 None])]"

definition twin_forest :: "Agency list" where
  "twin_forest = [agency_node ''a'' 5 None, agency_node ''a'' 6 None]"

text \<open>A call that fails once with a plain \<open>Error\<close> and then succeeds.\<close>

definition flaky_fn :: "nat \<Rightarrow> string settled" where
  "flaky_fn k =
     (if k = 1 then Rejected (ErrorObject \<lparr>message = lit ''First failure'', status = None\<rparr>)
      else Resolved ''success'')"

section \<open>Properties of the word count analysis\<close>

subsection \<open>Counting words\<close>

lemma count_runs_skip_ws: "count_runs False (dropWhile is_ws s) = count_runs False s"
  by (induction s) auto

lemma count_runs_all_ws: "\<forall>c\<in>set ys. is_ws c \<Longrightarrow> count_runs b ys = 0"
  by (induction ys arbitrary: b) auto

lemma count_runs_trailing_ws:
  "\<forall>c\<in>set ys. is_ws c \<Longrightarrow> count_runs b (xs @ ys) = count_runs b xs"
  by (induction xs arbitrary: b) (auto simp: count_runs_all_ws)

lemma count_runs_leading_ws: "is_ws c \<Longrightarrow> count_runs b (c # cs) = count_runs False (c # cs)"
  by simp

lemma count_runs_token:
  "\<forall>c\<in>set tok. \<not> is_ws c \<Longrightarrow>
     count_runs b (tok @ rest) =
       (if tok = [] then count_runs b rest else (if b then 0 else 1) + count_runs True rest)"
  by (induction tok arbitrary: b) auto

lemma drop_trailing_ws: "rev (dropWhile is_ws (rev s)) @ rev (takeWhile is_ws (rev s)) = s"
proof -
  have "rev (takeWhile is_ws (rev s) @ dropWhile is_ws (rev s)) = s" by simp
  then show ?thesis by (simp only: rev_append)
qed

lemma count_runs_trim: "count_runs False (trim s) = count_runs False s"
proof -
  let ?s' = "dropWhile is_ws s"
  have "count_runs False (rev (dropWhile is_ws (rev ?s')) @ rev (takeWhile is_ws (rev ?s')))
          = count_runs False (rev (dropWhile is_ws (rev ?s')))"
    by (rule count_runs_trailing_ws) (auto dest: set_takeWhileD)
  then have "count_runs False ?s' = count_runs False (trim s)"
    by (simp only: drop_trailing_ws trim_def)
  then show ?thesis by (simp add: count_runs_skip_ws)
qed

lemma split_ws_end:
  "dropWhile (\<lambda>c. \<not> is_ws c) s = [] \<Longrightarrow> split_ws s = [takeWhile (\<lambda>c. \<not> is_ws c) s]"
  by (subst split_ws.simps) (simp add: Let_def)

lemma split_ws_step:
  "dropWhile (\<lambda>c. \<not> is_ws c) s \<noteq> [] \<Longrightarrow>
     split_ws s = takeWhile (\<lambda>c. \<not> is_ws c) s #
                  split_ws (dropWhile is_ws (dropWhile (\<lambda>c. \<not> is_ws c) s))"
  apply (rule trans[OF split_ws.simps])
  apply (simp only: Let_def if_False)
  done

lemma split_ws_count: "length (filter (\<lambda>w. w \<noteq> []) (split_ws s)) = count_runs False s"
proof (induction s rule: split_ws.induct)
  case (1 s)
  let ?tok = "takeWhile (\<lambda>c. \<not> is_ws c) s"
  let ?rest = "dropWhile (\<lambda>c. \<not> is_ws c) s"
  have s: "s = ?tok @ ?rest" by simp
  have tok: "\<forall>c\<in>set ?tok. \<not> is_ws c" by (auto dest: set_takeWhileD)
  show ?case
  proof (cases "?rest = []")
    case True
    have "count_runs False (?tok @ ?rest) = (if ?tok = [] then 0 else 1)"
      using True by (simp only: count_runs_token[OF tok]) simp
    then have "count_runs False s = (if ?tok = [] then 0 else 1)" by simp
    moreover have "split_ws s = [?tok]"
      by (rule split_ws_end[OF True])
    ultimately show ?thesis by simp
  next
    case False
    then obtain c cs where rc: "?rest = c # cs" by (cases ?rest) auto
    have "\<not> \<not> is_ws (hd ?rest)" using hd_dropWhile[OF False] by simp
    then have wsc: "is_ws c" using rc by simp
    have IH: "length (filter (\<lambda>w. w \<noteq> []) (split_ws (dropWhile is_ws ?rest)))
                = count_runs False (dropWhile is_ws ?rest)"
      using "1.IH"[OF refl refl False] .
    have rest_runs: "count_runs True ?rest = count_runs False ?rest"
      using wsc rc by simp
    have "count_runs False (?tok @ ?rest) = (if ?tok = [] then 0 else 1) + count_runs False ?rest"
      by (simp only: count_runs_token[OF tok] rest_runs) simp
    then have "count_runs False s = (if ?tok = [] then 0 else 1) + count_runs False ?rest"
      by simp
    moreover have "split_ws s = ?tok # split_ws (dropWhile is_ws ?rest)"
      by (rule split_ws_step[OF False])
    ultimately show ?thesis using IH by (simp add: count_runs_skip_ws)
  qed
qed

lemma countWords_runs: "countWords (Some s) = count_runs False s"
  by (simp add: countWords_def split_ws_count count_runs_trim)

lemma is_ws_space: "is_ws 32" by (simp add: is_ws_def)

lemma lit_space: "lit '' '' = [32]"
  by (simp add: lit_def)

lemma trim_trailing_space: "trim (s @ lit '' '') = trim s"
proof (cases "\<forall>c\<in>set s. is_ws c")
  case True
  then have a: "dropWhile is_ws s = []" by simp
  from True have "dropWhile is_ws (s @ [32]) = dropWhile is_ws [32]"
    by (simp add: dropWhile_append2)
  then have b: "dropWhile is_ws (s @ [32]) = []" by (simp add: is_ws_space)
  show ?thesis unfolding trim_def lit_space a b by simp
next
  case False
  then obtain x where "x \<in> set s" "\<not> is_ws x" by auto
  then have "dropWhile is_ws (s @ [32]) = dropWhile is_ws s @ [32]"
    by (rule dropWhile_append1)
  then show ?thesis by (simp add: trim_def lit_space is_ws_space)
qed

lemma trim_space: "trim (lit '' '') = trim []"
  using trim_trailing_space[of "[]"] by simp

lemma getNodeContent_own_text: "getNodeContent node = own_text node"
  by (cases "node_content node"; cases "node_text node")
     (auto simp: getNodeContent_def own_text_def Let_def trim_trailing_space trim_space)

subsection \<open>The recursive walk\<close>

lemma processNode_walk:
  "processNode node st =
     (sum_list (map (\<lambda>n. wordCount (elementCount n)) (preorder node)),
      \<lparr>elements = elements st @ map elementCount (preorder node),
       hierarchyCounts = fold visit (preorder node) (hierarchyCounts st)\<rparr>)"
  "processChildren cs acc st =
     (acc + sum_list (map (\<lambda>n. wordCount (elementCount n)) (preorder_list cs)),
      \<lparr>elements = elements st @ map elementCount (preorder_list cs),
       hierarchyCounts = fold visit (preorder_list cs) (hierarchyCounts st)\<rparr>)"
proof (induction node st and cs acc st rule: processNode_processChildren.induct)
  case (1 node st)
  show ?case
  proof (cases "node_children node")
    case None
    then show ?thesis by (simp add: visit_def Let_def)
  next
    case (Some cs)
    then show ?thesis using "1.IH"[OF refl refl refl Some]
      by (simp add: visit_def Let_def)
  qed
next
  case (2 acc st)
  show ?case by simp
next
  case (3 child rest acc st)
  show ?case using 3 by (simp add: Let_def)
qed

declare processNode.simps [simp del]

lemma producedElements_preorder: "producedElements t = map elementCount (preorder t)"
  by (simp add: producedElements_def processNode_walk)

lemma foldl_plus: "foldl (\<lambda>sum x. sum + f x) (a::nat) xs = a + sum_list (map f xs)"
  by (induction xs arbitrary: a) auto

lemma preorder_descendants: "preorder node = node # descendants node"
  by (simp add: descendants_def)

text \<open>
  C1. The \<open>totalWords\<close> of the result is the sum of \<open>wordCount\<close> over the records produced
  for the tree, one record per node; and the walk of any subtree returns the own word count of
  its root plus the own word counts of all its descendants.
\<close>

theorem C1_total_words_additive:
  "totalWords (analyzeWordCount t) = sum_list (map wordCount (producedElements t)) \<and>
   producedElements t = map elementCount (preorder t) \<and>
   fst (processNode node st) =
     wordCount (elementCount node) +
     sum_list (map (\<lambda>n. wordCount (elementCount n)) (descendants node))"
proof (intro conjI)
  show "totalWords (analyzeWordCount t) = sum_list (map wordCount (producedElements t))"
    by (simp add: analyzeWordCount_def producedElements_def processNode_walk comp_def)
  show "producedElements t = map elementCount (preorder t)"
    by (rule producedElements_preorder)
  show "fst (processNode node st) =
     wordCount (elementCount node) +
     sum_list (map (\<lambda>n. wordCount (elementCount n)) (descendants node))"
    by (simp only: processNode_walk preorder_descendants fst_conv list.map sum_list.Cons)
qed

text \<open>
  C3. The own text of a node is the trimmed concatenation of its content field (if present)
  and its text field (if present, joined by a space). The word count of its record is the
  number of maximal non-whitespace runs of that text, which is the number of non-empty pieces
  of its split at the whitespace runs; the character count is its length, and
  a node with neither field has word count 0 and character count 0. The record is the one
  the walk appends for the node.
\<close>

theorem C3_own_text_counts:
  "getNodeContent node = own_text node \<and>
   wordCount (elementCount node) = word_runs (own_text node) \<and>
   wordCount (elementCount node) = length (filter (\<lambda>w. w \<noteq> []) (split_ws (own_text node))) \<and>
   characterCount (elementCount node) = length (own_text node) \<and>
   (node_content node = None \<and> node_text node = None \<longrightarrow>
      wordCount (elementCount node) = 0 \<and> characterCount (elementCount node) = 0) \<and>
   (\<exists>rest. elements (snd (processNode node st)) = elements st @ elementCount node # rest)"
proof (intro conjI impI)
  show "getNodeContent node = own_text node" by (rule getNodeContent_own_text)
  show wc: "wordCount (elementCount node) = word_runs (own_text node)"
    by (simp add: elementCount_def Let_def countWords_runs word_runs_def getNodeContent_own_text)
  show "wordCount (elementCount node) = length (filter (\<lambda>w. w \<noteq> []) (split_ws (own_text node)))"
    by (simp only: wc word_runs_def split_ws_count)
  show cc: "characterCount (elementCount node) = length (own_text node)"
    by (simp add: elementCount_def Let_def getNodeContent_own_text)
  show "\<exists>rest. elements (snd (processNode node st)) = elements st @ elementCount node # rest"
    by (simp add: processNode_walk)
next
  assume "node_content node = None \<and> node_text node = None"
  then have "own_text node = []" by (simp add: own_text_def trim_def)
  then show "wordCount (elementCount node) = 0" "characterCount (elementCount node) = 0"
    by (simp_all add: elementCount_def Let_def countWords_runs getNodeContent_own_text)
qed

theorem C3_own_text_counts_witness:
  "node_content (StructureNode None (lit ''ch'') Chapter None None None None) = None \<and>
   node_text (StructureNode None (lit ''ch'') Chapter None None None None) = None \<and>
   wordCount (elementCount (StructureNode None (lit ''ch'') Chapter None None None None)) = 0 \<and>
   characterCount (elementCount (StructureNode None (lit ''ch'') Chapter None None None None)) = 0"
proof -
  let ?n = "StructureNode None (lit ''ch'') Chapter None None None None"
  have h: "node_content ?n = None \<and> node_text ?n = None" by simp
  from C3_own_text_counts [of ?n "\<lparr>elements = [], hierarchyCounts = []\<rparr>"] h
  show ?thesis by blast
qed

text \<open>
  C10. The \<open>totalCharacters\<close> of the result is the sum of \<open>characterCount\<close> over the
  records produced for the tree, that is, the sum of the lengths of the own texts of its nodes.
\<close>

theorem C10_total_characters_additive:
  "totalCharacters (analyzeWordCount t) = sum_list (map characterCount (producedElements t)) \<and>
   totalCharacters (analyzeWordCount t) = sum_list (map (\<lambda>n. length (own_text n)) (preorder t))"
proof -
  have a: "totalCharacters (analyzeWordCount t) = sum_list (map characterCount (producedElements t))"
    by (simp add: analyzeWordCount_def producedElements_def processNode_walk foldl_plus)
  have "characterCount (elementCount n) = length (own_text n)" for n
    by (simp add: elementCount_def Let_def getNodeContent_own_text)
  then show ?thesis using a by (simp add: producedElements_preorder comp_def)
qed


subsection \<open>Sorting, the hierarchy counts and the top elements\<close>

lemma insert_cmp_insort_key:
  assumes "\<And>a b. cmp a b \<le> 0 \<longleftrightarrow> f a \<le> f b"
  shows "insert_cmp cmp x ys = insort_key f x ys"
  by (induction ys) (simp_all add: assms)

lemma js_sort_sort_key:
  assumes "\<And>a b. cmp a b \<le> 0 \<longleftrightarrow> f a \<le> f b"
  shows "js_sort cmp xs = sort_key f xs"
proof -
  have "insert_cmp cmp = insort_key f"
    by (intro ext) (rule insert_cmp_insort_key[OF assms])
  then show ?thesis by (simp add: js_sort_def sort_key_def)
qed

lemma localeCompare_le: "localeCompare a b \<le> 0 \<longleftrightarrow> a \<le> b"
  by (auto simp: localeCompare_def)

lemma sort_by_type:
  "js_sort (\<lambda>a b. localeCompare (type_name (h_type a)) (type_name (h_type b))) xs =
   sort_key (\<lambda>r. type_name (h_type r)) xs"
  by (rule js_sort_sort_key) (rule localeCompare_le)

lemma sort_by_words:
  "js_sort (\<lambda>a b. int (wordCount b) - int (wordCount a)) xs =
   sort_key (\<lambda>e. - int (wordCount e)) xs"
  by (rule js_sort_sort_key) auto

lemma type_name_inj: "type_name a = type_name b \<Longrightarrow> a = b"
  by (cases a; cases b) simp_all

lemma visit_update:
  "visit n hc = AList.update (node_type n)
      \<lparr>d_count = d_count (hdata hc (node_type n)) + 1,
       d_totalWords = d_totalWords (hdata hc (node_type n)) + wordCount (elementCount n)\<rparr> hc"
  by (simp add: visit_def updateHierarchy_def hdata_def Let_def)

lemma hdata_visit:
  "hdata (visit n hc) ty =
     (if node_type n = ty
      then \<lparr>d_count = d_count (hdata hc ty) + 1,
            d_totalWords = d_totalWords (hdata hc ty) + wordCount (elementCount n)\<rparr>
      else hdata hc ty)"
  by (simp add: visit_update hdata_def update_conv')

lemma keys_visit: "fst ` set (visit n hc) = insert (node_type n) (fst ` set hc)"
  by (simp add: visit_update dom_update)

lemma distinct_visit: "distinct (map fst hc) \<Longrightarrow> distinct (map fst (visit n hc))"
  by (simp add: visit_update distinct_update)

lemma hdata_fold_visit:
  "hdata (fold visit ns hc) ty =
     \<lparr>d_count = d_count (hdata hc ty) + length (filter (\<lambda>n. node_type n = ty) ns),
      d_totalWords = d_totalWords (hdata hc ty) +
         sum_list (map (\<lambda>n. wordCount (elementCount n)) (filter (\<lambda>n. node_type n = ty) ns))\<rparr>"
  by (induction ns arbitrary: hc) (simp_all add: hdata_visit)

lemma keys_fold_visit: "fst ` set (fold visit ns hc) = node_type ` set ns \<union> fst ` set hc"
  by (induction ns arbitrary: hc) (auto simp: keys_visit)

lemma distinct_fold_visit:
  "distinct (map fst hc) \<Longrightarrow> distinct (map fst (fold visit ns hc))"
  by (induction ns arbitrary: hc) (simp_all add: distinct_visit)

lemma indicator_sum_absent:
  "x \<notin> set tys \<Longrightarrow> sum_list (map (\<lambda>ty. if x = ty then 1 else 0) tys) = (0::nat)"
  by (induction tys) auto

lemma indicator_sum_distinct:
  "distinct tys \<Longrightarrow> x \<in> set tys \<Longrightarrow>
     sum_list (map (\<lambda>ty. if x = ty then 1 else 0) tys) = (1::nat)"
  by (induction tys) (auto simp: indicator_sum_absent)

lemma count_partition:
  "distinct tys \<Longrightarrow> f ` set ns \<subseteq> set tys \<Longrightarrow>
     sum_list (map (\<lambda>ty. length (filter (\<lambda>n. f n = ty) ns)) tys) = length ns"
proof (induction ns)
  case Nil
  then show ?case by simp
next
  case (Cons a ns)
  have one: "sum_list (map (\<lambda>ty. if f a = ty then 1 else 0) tys) = (1::nat)"
    using Cons.prems by (intro indicator_sum_distinct) auto
  have "sum_list (map (\<lambda>ty. length (filter (\<lambda>n. f n = ty) (a # ns))) tys) =
        sum_list (map (\<lambda>ty. (if f a = ty then 1 else 0) + length (filter (\<lambda>n. f n = ty) ns)) tys)"
    by (rule arg_cong[where f = sum_list]) (rule map_cong, auto)
  also have "\<dots> = sum_list (map (\<lambda>ty. if f a = ty then 1 else 0) tys) +
                  sum_list (map (\<lambda>ty. length (filter (\<lambda>n. f n = ty) ns)) tys)"
    by (rule sum_list_addf)
  finally show ?case using one Cons by simp
qed


lemma byHierarchy_sorted_records:
  "byHierarchy (analyzeWordCount t) =
     sort_key (\<lambda>r. type_name (h_type r)) (map hrecord (fold visit (preorder t) []))"
  by (simp add: analyzeWordCount_def processNode_walk sort_by_type hrecord_def Let_def
        del: preorder.simps)

lemma hierarchy_entry:
  assumes "(ty, d) \<in> set (fold visit ns [])"
  shows "ty \<in> node_type ` set ns"
    and "d_count d = length (filter (\<lambda>n. node_type n = ty) ns)"
    and "d_totalWords d =
           sum_list (map (\<lambda>n. wordCount (elementCount n)) (filter (\<lambda>n. node_type n = ty) ns))"
proof -
  have dist: "distinct (map fst (fold visit ns []))" by (rule distinct_fold_visit) simp
  from assms have "ty \<in> fst ` set (fold visit ns [])" by force
  then show "ty \<in> node_type ` set ns" by (simp add: keys_fold_visit)
  from dist assms have "map_of (fold visit ns []) ty = Some d" by simp
  then have "hdata (fold visit ns []) ty = d" by (simp add: hdata_def)
  moreover have "hdata [] ty = \<lparr>d_count = 0, d_totalWords = 0\<rparr>" by (simp add: hdata_def)
  ultimately have d: "d = \<lparr>d_count = length (filter (\<lambda>n. node_type n = ty) ns),
      d_totalWords = sum_list (map (\<lambda>n. wordCount (elementCount n)) (filter (\<lambda>n. node_type n = ty) ns))\<rparr>"
    by (simp add: hdata_fold_visit)
  show "d_count d = length (filter (\<lambda>n. node_type n = ty) ns)" by (subst d) simp
  show "d_totalWords d =
           sum_list (map (\<lambda>n. wordCount (elementCount n)) (filter (\<lambda>n. node_type n = ty) ns))"
    by (subst d) simp
qed

lemma h_type_hrecord: "h_type (hrecord p) = fst p"
  by (cases p) (simp add: hrecord_def)

lemma h_count_hrecord: "h_count (hrecord p) = d_count (snd p)"
  by (cases p) (simp add: hrecord_def)

lemma h_totalWords_hrecord: "h_totalWords (hrecord p) = d_totalWords (snd p)"
  by (cases p) (simp add: hrecord_def)

lemma averageWords_hrecord:
  "0 < d_count (snd p) \<Longrightarrow>
     averageWords (hrecord p) = Finite (of_nat (d_totalWords (snd p)) / of_nat (d_count (snd p)))"
  by (cases p) (simp add: hrecord_def js_div_def)

lemma sum_list_sort_key: "sum_list (map g (sort_key f xs)) = sum_list (map (g :: 'a \<Rightarrow> nat) xs)"
proof -
  have "mset (map g (sort_key f xs)) = mset (map g xs)" by simp
  then show ?thesis by (metis sum_mset_sum_list)
qed

text \<open>
  C6. \<open>byHierarchy\<close> has exactly one record per type present in the tree; the count of a
  record is the number of nodes of its type, its \<open>totalWords\<close> is the sum of the own word
  counts of these nodes, its \<open>averageWords\<close> is \<open>totalWords\<close> divided by the count; the
  counts add up to the number of nodes, so every node is counted under exactly one type; and
  the records are sorted lexicographically by type.
\<close>

theorem C6_by_hierarchy:
  "distinct (map h_type (byHierarchy (analyzeWordCount t))) \<and>
   h_type ` set (byHierarchy (analyzeWordCount t)) = node_type ` set (preorder t) \<and>
   (\<forall>r \<in> set (byHierarchy (analyzeWordCount t)).
       h_count r = length (filter (\<lambda>n. node_type n = h_type r) (preorder t)) \<and>
       h_totalWords r =
         sum_list (map (\<lambda>n. wordCount (elementCount n))
                       (filter (\<lambda>n. node_type n = h_type r) (preorder t))) \<and>
       0 < h_count r \<and>
       averageWords r = Finite (of_nat (h_totalWords r) / of_nat (h_count r))) \<and>
   sum_list (map h_count (byHierarchy (analyzeWordCount t))) = length (preorder t) \<and>
   sorted (map (\<lambda>r. type_name (h_type r)) (byHierarchy (analyzeWordCount t)))"
proof -
  define ns where "ns = preorder t"
  define hc where "hc = fold visit ns []"
  define bh where "bh = byHierarchy (analyzeWordCount t)"
  have bh: "bh = sort_key (\<lambda>r. type_name (h_type r)) (map hrecord hc)"
    by (simp only: bh_def hc_def ns_def byHierarchy_sorted_records)
  have dist_hc: "distinct (map fst hc)" unfolding hc_def by (rule distinct_fold_visit) simp
  have keys_hc: "fst ` set hc = node_type ` set ns" by (simp add: hc_def keys_fold_visit)
  have types: "map h_type (map hrecord hc) = map fst hc" by (simp add: h_type_hrecord)
  have "mset (map h_type bh) = mset (map fst hc)"
    by (simp only: bh mset_map mset_sort flip: types)
  then have c1: "distinct (map h_type bh)" using dist_hc by (metis mset_eq_imp_distinct_iff)
  have "set bh = hrecord ` set hc" by (simp add: bh)
  then have set_bh: "r \<in> set bh \<longleftrightarrow> (\<exists>p \<in> set hc. r = hrecord p)" for r by auto
  have c2: "h_type ` set bh = node_type ` set ns"
  proof -
    have "h_type ` set bh = fst ` set hc" by (simp add: bh image_image h_type_hrecord)
    then show ?thesis by (simp only: keys_hc)
  qed
  have c3: "h_count r = length (filter (\<lambda>n. node_type n = h_type r) ns) \<and>
       h_totalWords r =
         sum_list (map (\<lambda>n. wordCount (elementCount n)) (filter (\<lambda>n. node_type n = h_type r) ns)) \<and>
       0 < h_count r \<and>
       averageWords r = Finite (of_nat (h_totalWords r) / of_nat (h_count r))"
    if "r \<in> set bh" for r
  proof -
    from that obtain ty d where p: "(ty, d) \<in> set hc" and r: "r = hrecord (ty, d)"
      by (auto simp: set_bh)
    note e = hierarchy_entry[OF p[unfolded hc_def]]
    from e(1) have pos: "0 < length (filter (\<lambda>n. node_type n = ty) ns)"
      by (auto simp: filter_empty_conv)
    have cnt: "h_count r = length (filter (\<lambda>n. node_type n = h_type r) ns)"
      by (simp add: r h_count_hrecord h_type_hrecord e(2))
    have tw: "h_totalWords r =
         sum_list (map (\<lambda>n. wordCount (elementCount n)) (filter (\<lambda>n. node_type n = h_type r) ns))"
      by (simp add: r h_totalWords_hrecord h_type_hrecord e(3))
    have "0 < d_count (snd (ty, d))" using pos e(2) by simp
    from averageWords_hrecord[OF this]
    have av: "averageWords r = Finite (of_nat (h_totalWords r) / of_nat (h_count r))"
      by (simp add: r h_count_hrecord h_totalWords_hrecord)
    have "0 < h_count r" using pos e(2) by (simp add: r h_count_hrecord)
    with cnt tw av show ?thesis by blast
  qed
  have c4: "sum_list (map h_count bh) = length ns"
  proof -
    have "sum_list (map h_count bh) = sum_list (map h_count (map hrecord hc))"
      by (simp only: bh sum_list_sort_key)
    also have "\<dots> = sum_list (map (\<lambda>p. length (filter (\<lambda>n. node_type n = fst p) ns)) hc)"
    proof -
      have "h_count (hrecord p) = length (filter (\<lambda>n. node_type n = fst p) ns)"
        if "p \<in> set hc" for p
        using hierarchy_entry(2)[of "fst p" "snd p" ns] that
        by (simp add: h_count_hrecord hc_def)
      then show ?thesis by (simp add: comp_def cong: map_cong)
    qed
    also have "\<dots> = sum_list (map (\<lambda>ty. length (filter (\<lambda>n. node_type n = ty) ns)) (map fst hc))"
      by (simp add: comp_def)
    also have "\<dots> = length ns"
      by (rule count_partition) (simp_all add: dist_hc keys_hc)
    finally show ?thesis .
  qed
  have c5: "sorted (map (\<lambda>r. type_name (h_type r)) bh)"
    by (simp only: bh sorted_sort_key)
  from c1 c2 c3 c4 c5 show ?thesis unfolding bh_def ns_def by blast
qed


lemma topElements_sorted_prefix:
  "topElements (analyzeWordCount t) =
     take 10 (sort_key (\<lambda>e. - int (wordCount e)) (producedElements t))"
  by (simp add: analyzeWordCount_def producedElements_def processNode_walk sort_by_words Let_def
        del: preorder.simps)

text \<open>
  C8. \<open>topElements\<close> holds the 10 records with the greatest word counts (all records when
  there are at most 10): it is sorted by word count, descending; no record left out has more
  words than a record taken; among the records of one word count it takes the first ones, in
  the order of the walk.
\<close>

theorem C8_top_elements:
  "length (topElements (analyzeWordCount t)) = min 10 (length (producedElements t)) \<and>
   sorted_wrt (\<lambda>a b. wordCount b \<le> wordCount a) (topElements (analyzeWordCount t)) \<and>
   mset (topElements (analyzeWordCount t)) \<subseteq># mset (producedElements t) \<and>
   (\<forall>x \<in># mset (producedElements t) - mset (topElements (analyzeWordCount t)).
      \<forall>y \<in> set (topElements (analyzeWordCount t)). wordCount x \<le> wordCount y) \<and>
   (\<forall>k. prefix (filter (\<lambda>e. wordCount e = k) (topElements (analyzeWordCount t)))
                (filter (\<lambda>e. wordCount e = k) (producedElements t))) \<and>
   (length (producedElements t) \<le> 10 \<longrightarrow>
      mset (topElements (analyzeWordCount t)) = mset (producedElements t))"
proof -
  define els where "els = producedElements t"
  define f where "f = (\<lambda>e::ElementWordCount. - int (wordCount e))"
  define ys where "ys = sort_key f els"
  define top where "top = topElements (analyzeWordCount t)"
  have top: "top = take 10 ys"
    by (simp only: top_def ys_def f_def els_def topElements_sorted_prefix)
  have split: "ys = top @ drop 10 ys" by (simp add: top)
  have mset_ys: "mset ys = mset els" by (simp add: ys_def)
  have mset_split: "mset els = mset top + mset (drop 10 ys)"
    using arg_cong[OF split, of mset] by (simp add: mset_ys)
  have srt: "sorted_wrt (\<lambda>a b. wordCount b \<le> wordCount a) ys"
  proof -
    have "sorted (map f ys)" by (simp add: ys_def)
    then show ?thesis by (simp add: sorted_map f_def)
  qed
  have c1: "length top = min 10 (length els)"
    using arg_cong[OF mset_ys, of size] by (simp add: top min_def)
  have c2: "sorted_wrt (\<lambda>a b. wordCount b \<le> wordCount a) top"
    using srt by (subst (asm) split) (simp add: sorted_wrt_append)
  have c3: "mset top \<subseteq># mset els" by (simp add: mset_split)
  have c4: "wordCount x \<le> wordCount y" if "x \<in># mset els - mset top" "y \<in> set top" for x y
  proof -
    from that(1) have "x \<in> set (drop 10 ys)" by (simp add: mset_split)
    with that(2) srt show ?thesis by (subst (asm) split) (simp add: sorted_wrt_append)
  qed
  have c5: "prefix (filter (\<lambda>e. wordCount e = k) top) (filter (\<lambda>e. wordCount e = k) els)" for k
  proof -
    have "filter (\<lambda>e. f e = - int k) ys = filter (\<lambda>e. f e = - int k) els"
      unfolding ys_def by (rule sort_key_stable)
    then have "filter (\<lambda>e. wordCount e = k) ys = filter (\<lambda>e. wordCount e = k) els"
      by (simp add: f_def)
    moreover have "prefix (filter (\<lambda>e. wordCount e = k) top) (filter (\<lambda>e. wordCount e = k) ys)"
      unfolding top by (intro filter_mono_prefix take_is_prefix)
    ultimately show ?thesis by simp
  qed
  have c6: "mset top = mset els" if "length els \<le> 10"
  proof -
    have "length ys \<le> 10" using that arg_cong[OF mset_ys, of size] by simp
    then show ?thesis by (simp add: top mset_ys)
  qed
  from c1 c2 c3 c4 c5 c6 show ?thesis unfolding top_def els_def by blast
qed


subsection \<open>The analysis on the example trees\<close>

lemmas eval_defs = analyzeWordCount_def producedElements_def processNode.simps elementCount_def
  getNodeContent_def countWords_def trim_def lit_def is_ws_def split_ws.simps Let_def
  updateHierarchy_def js_sort_def localeCompare_def js_div_def section_node_def

lemma elementCount_section_a:
  "elementCount (section_node i ''a'') =
     \<lparr>el_identifier = lit i, el_type = Section, label = None, wordCount = 1, characterCount = 1\<rparr>"
  by (simp add: eval_defs)

lemma elementCount_section_ab:
  "elementCount (section_node i ''a b'') =
     \<lparr>el_identifier = lit i, el_type = Section, label = None, wordCount = 2, characterCount = 3\<rparr>"
  by (simp add: eval_defs)

lemma elementCount_big_tree:
  "elementCount big_tree =
     \<lparr>el_identifier = lit ''t'', el_type = Title, label = None, wordCount = 0, characterCount = 0\<rparr>"
  by (simp add: big_tree_def eval_defs)

lemma children_section_node: "node_children (section_node i c) = None"
  by (simp add: section_node_def)

lemma producedElements_big_tree:
  "producedElements big_tree =
     elementCount big_tree #
     [elementCount (section_node ''0'' ''a''), elementCount (section_node ''1'' ''a b''),
      elementCount (section_node ''2'' ''a''), elementCount (section_node ''3'' ''a b''),
      elementCount (section_node ''4'' ''a''), elementCount (section_node ''5'' ''a b''),
      elementCount (section_node ''6'' ''a''), elementCount (section_node ''7'' ''a b''),
      elementCount (section_node ''8'' ''a''), elementCount (section_node ''9'' ''a b'')]"
  unfolding producedElements_preorder
  apply (subst preorder.simps)
  apply (simp add: children_section_node)
  apply (simp add: big_tree_def children_section_node)
  done

lemma topElements_big_tree:
  "topElements (analyzeWordCount big_tree) =
     [elementCount (section_node ''1'' ''a b''), elementCount (section_node ''3'' ''a b''),
      elementCount (section_node ''5'' ''a b''), elementCount (section_node ''7'' ''a b''),
      elementCount (section_node ''9'' ''a b''), elementCount (section_node ''0'' ''a''),
      elementCount (section_node ''2'' ''a''), elementCount (section_node ''4'' ''a''),
      elementCount (section_node ''6'' ''a''), elementCount (section_node ''8'' ''a'')]"
  unfolding topElements_sorted_prefix producedElements_big_tree
  by (simp add: elementCount_section_a elementCount_section_ab elementCount_big_tree)

theorem C6_by_hierarchy_witness:
  "\<lparr>h_type = Section, h_count = 1, h_totalWords = 2, averageWords = Finite 2\<rparr>
     \<in> set (byHierarchy (analyzeWordCount small_tree)) \<and>
   (1::nat) = length (filter (\<lambda>n. node_type n = Section) (preorder small_tree)) \<and>
   (2::nat) = sum_list (map (\<lambda>n. wordCount (elementCount n))
                   (filter (\<lambda>n. node_type n = Section) (preorder small_tree)))"
proof -
  let ?r = "\<lparr>h_type = Section, h_count = 1, h_totalWords = 2, averageWords = Finite 2\<rparr>"
  have m: "?r \<in> set (byHierarchy (analyzeWordCount small_tree))"
    by (simp add: small_tree_def eval_defs)
  from C6_by_hierarchy [of small_tree] m
  have "h_count ?r = length (filter (\<lambda>n. node_type n = h_type ?r) (preorder small_tree)) \<and>
        h_totalWords ?r = sum_list (map (\<lambda>n. wordCount (elementCount n))
                       (filter (\<lambda>n. node_type n = h_type ?r) (preorder small_tree)))"
    by blast
  with m show ?thesis by simp
qed

theorem C8_top_elements_witness:
  "(length (producedElements small_tree) \<le> 10 \<and>
    mset (topElements (analyzeWordCount small_tree)) = mset (producedElements small_tree)) \<and>
   (elementCount big_tree
      \<in># mset (producedElements big_tree) - mset (topElements (analyzeWordCount big_tree)) \<and>
    elementCount (section_node ''8'' ''a'') \<in> set (topElements (analyzeWordCount big_tree)) \<and>
    wordCount (elementCount big_tree) \<le> wordCount (elementCount (section_node ''8'' ''a'')))"
proof -
  have s: "length (producedElements small_tree) \<le> 10"
    by (simp add: small_tree_def eval_defs)
  have x: "elementCount big_tree
      \<in># mset (producedElements big_tree) - mset (topElements (analyzeWordCount big_tree))"
    unfolding topElements_big_tree producedElements_big_tree
    by (simp add: elementCount_section_a elementCount_section_ab elementCount_big_tree)
  have y: "elementCount (section_node ''8'' ''a'') \<in> set (topElements (analyzeWordCount big_tree))"
    unfolding topElements_big_tree by simp
  from C8_top_elements [of small_tree] s
  have a: "mset (topElements (analyzeWordCount small_tree)) = mset (producedElements small_tree)"
    by blast
  from C8_top_elements [of big_tree] x y
  have b: "wordCount (elementCount big_tree) \<le> wordCount (elementCount (section_node ''8'' ''a''))"
    by blast
  from s a x y b show ?thesis by blast
qed

section \<open>Properties of the summary projection\<close>

lemma reduce_e_longer:
  "\<exists>m'. reduce_e longer (Some m) rs = Inr (Some m')"
  by (induction rs arbitrary: m) (simp_all add: longer_def)

lemma reduce_e_shorter:
  "\<exists>m'. reduce_e shorter (Some m) rs = Inr (Some m')"
  by (induction rs arbitrary: m) (simp_all add: shorter_def)

text \<open>
  C2, as stated, fails: on the empty batch no error is raised, and the record returned has an
  undefined \<open>longestTitle\<close>.
\<close>

theorem C2_empty_batch_counterexample:
  "getWordCountSummary [] =
     Inr \<lparr>s_titleCount = 0, s_totalWords = 0, s_totalElements = 0,
          averageWordsPerTitle = Finite 0, longestTitle = None, shortestTitle = None\<rparr>"
  by (simp add: getWordCountSummary_def first_result_def)

text \<open>
  C2, amended. \<open>getWordCountSummary\<close> raises no error on any batch. On the empty batch it
  returns the record of zeros whose \<open>longestTitle\<close> and \<open>shortestTitle\<close> are undefined; a
  record with an undefined \<open>longestTitle\<close> or \<open>shortestTitle\<close> is returned for the empty
  batch only.
\<close>

theorem C2_summary_never_raises:
  "(\<exists>s. getWordCountSummary rs = Inr s \<and> s_titleCount s = length rs \<and>
        (longestTitle s = None \<longleftrightarrow> rs = []) \<and> (shortestTitle s = None \<longleftrightarrow> rs = [])) \<and>
   (rs = [] \<longrightarrow> getWordCountSummary rs =
        Inr \<lparr>s_titleCount = 0, s_totalWords = 0, s_totalElements = 0,
             averageWordsPerTitle = Finite 0, longestTitle = None, shortestTitle = None\<rparr>)"
proof (cases rs)
  case Nil
  then show ?thesis by (simp add: getWordCountSummary_def first_result_def)
next
  case (Cons r rs')
  obtain a where a: "reduce_e longer (Some r) (r # rs') = Inr (Some a)"
    using reduce_e_longer by blast
  obtain b where b: "reduce_e shorter (Some r) (r # rs') = Inr (Some b)"
    using reduce_e_shorter by blast
  show ?thesis using a b unfolding Cons
    by (simp add: getWordCountSummary_def first_result_def Let_def del: reduce_e.simps)
qed

theorem C2_summary_never_raises_witness:
  "([] :: WordCountResult list) = [] \<and>
   getWordCountSummary [] =
        Inr \<lparr>s_titleCount = 0, s_totalWords = 0, s_totalElements = 0,
             averageWordsPerTitle = Finite 0, longestTitle = None, shortestTitle = None\<rparr>"
  using C2_summary_never_raises [of "[]"] by simp

section \<open>Properties of the retry loop\<close>

lemma attempt_from_unfold:
  "a \<le> n \<Longrightarrow> attempt_from fn a n = (if is_resolved (fn a) then a else if a = n then n else attempt_from fn (Suc a) n)"
  by (auto simp: attempt_from_def upt_conv_Cons)

lemma find_Some_member: "find P xs = Some x \<Longrightarrow> x \<in> set xs \<and> P x"
  by (induction xs) (auto split: if_splits)

lemma attempt_from_bounds:
  "a \<le> n \<Longrightarrow> a \<le> attempt_from fn a n \<and> attempt_from fn a n \<le> n"
  by (auto simp: attempt_from_def split: option.splits dest!: find_Some_member)

lemma retry_loop_attempts:
  "attempt \<le> maxA \<Longrightarrow>
     fst (retry_loop fn maxA maxD fac notify attempt delay lastError tr) =
       outcome (fn (attempt_from fn attempt maxA)) \<and>
     calls (snd (retry_loop fn maxA maxD fac notify attempt delay lastError tr)) =
       calls tr + Suc (attempt_from fn attempt maxA) - attempt"
proof (induction fn maxA maxD fac notify attempt delay lastError tr rule: retry_loop.induct)
  case (1 fn maxA maxD fac notify attempt delay lastError tr)
  show ?case
  proof (cases "fn attempt")
    case (Resolved v)
    then have "attempt_from fn attempt maxA = attempt"
      using "1.prems" by (simp add: attempt_from_unfold is_resolved_def)
    then show ?thesis using Resolved "1.prems"
      by (subst (1 2) retry_loop.simps) (simp add: outcome_def Let_def)
  next
    case (Rejected e)
    show ?thesis
    proof (cases "attempt = maxA")
      case True
      then have "attempt_from fn attempt maxA = attempt"
        by (simp add: attempt_from_unfold)
      then show ?thesis using Rejected True
        by (subst (1 2) retry_loop.simps) (simp add: outcome_def Let_def)
    next
      case False
      then have lt: "attempt + 1 \<le> maxA" using "1.prems" by simp
      have af: "attempt_from fn attempt maxA = attempt_from fn (Suc attempt) maxA"
        using "1.prems" False Rejected by (simp add: attempt_from_unfold is_resolved_def)
      have ge: "Suc attempt \<le> attempt_from fn (Suc attempt) maxA"
        using lt attempt_from_bounds[of "Suc attempt" maxA fn] by simp
      define tr3 where "tr3 =
        (let tr1 = tr\<lparr>calls := calls tr + 1\<rparr>;
             tr2 = (if notify
                    then tr1\<lparr>notified := notified tr1 @ [(attempt, to_Error e)]\<rparr>
                    else tr1)
         in tr2\<lparr>slept := slept tr2 @ [min delay maxD]\<rparr>)"
      have c3: "calls tr3 = calls tr + 1" by (simp add: tr3_def Let_def)
      have step: "retry_loop fn maxA maxD fac notify attempt delay lastError tr =
                  retry_loop fn maxA maxD fac notify (attempt + 1) (delay * fac)
                    (Some (to_Error e)) tr3"
        using Rejected False "1.prems"
        by (subst retry_loop.simps) (simp add: Let_def tr3_def)
      have IH: "fst (retry_loop fn maxA maxD fac notify (attempt + 1) (delay * fac)
                    (Some (to_Error e)) tr3) =
                  outcome (fn (attempt_from fn (attempt + 1) maxA)) \<and>
                calls (snd (retry_loop fn maxA maxD fac notify (attempt + 1) (delay * fac)
                    (Some (to_Error e)) tr3)) =
                  calls tr3 + Suc (attempt_from fn (attempt + 1) maxA) - (attempt + 1)"
        unfolding tr3_def Let_def
        by (rule "1.IH"[OF "1.prems" refl Rejected refl False refl refl lt])
      show ?thesis using IH ge unfolding step c3 af by simp
    qed
  qed
qed


lemma first_resolved_Some:
  assumes "first_resolved fn n = Some k"
  shows "1 \<le> k \<and> k \<le> n \<and> is_resolved (fn k) \<and> (\<forall>j. 1 \<le> j \<and> j < k \<longrightarrow> \<not> is_resolved (fn j))"
proof -
  from assms obtain i where i: "i < length [1..<Suc n]" "is_resolved (fn ([1..<Suc n] ! i))"
      "k = [1..<Suc n] ! i" "\<forall>j<i. \<not> is_resolved (fn ([1..<Suc n] ! j))"
    unfolding first_resolved_def find_Some_iff by blast
  from i(1) have len: "i < n" by (simp del: upt_Suc)
  then have k: "k = 1 + i" using i(3) by (simp del: upt_Suc)
  have "\<not> is_resolved (fn j)" if "1 \<le> j" "j < k" for j
  proof -
    from that k have "j - 1 < i" by simp
    with i(4) have "\<not> is_resolved (fn ([1..<Suc n] ! (j - 1)))" by blast
    moreover have "[1..<Suc n] ! (j - 1) = j" using that k len by (simp del: upt_Suc)
    ultimately show ?thesis by (simp del: upt_Suc)
  qed
  moreover have "is_resolved (fn k)" using i(2,3) by (simp del: upt_Suc)
  ultimately show ?thesis using k len by simp
qed

lemma first_resolved_None:
  assumes "first_resolved fn n = None"
  shows "\<forall>j. 1 \<le> j \<and> j \<le> n \<longrightarrow> \<not> is_resolved (fn j)"
  using assms unfolding first_resolved_def find_None_iff by auto

lemma last_attempt_from: "last_attempt fn n = attempt_from fn 1 n"
  by (simp add: last_attempt_def attempt_from_def first_resolved_def)

text \<open>
  C4, as stated, fails: an error that \<open>isRetryableError\<close> rejects is not propagated at
  once; \<open>fn\<close> is called a second time and its result is returned.
\<close>

theorem C4_retry_counterexample:
  "\<not> isRetryableError (ErrorObject \<lparr>message = lit ''First failure'', status = None\<rparr>) \<and>
   flaky_fn 1 = Rejected (ErrorObject \<lparr>message = lit ''First failure'', status = None\<rparr>) \<and>
   fst (retryWithBackoff flaky_fn no_options) = Inr ''success'' \<and>
   calls (snd (retryWithBackoff flaky_fn no_options)) = 2"
  by (simp add: isRetryableError_def lit_def flaky_fn_def retryWithBackoff_def no_options_def
        RETRY_CONFIG_maxAttempts_def retry_loop.simps Let_def)

text \<open>
  C4, amended. \<open>retryWithBackoff\<close> retries after every failed attempt that is not the last
  allowed one, whatever the error: \<open>fn\<close> is called until the first attempt that resolves or
  until the last allowed attempt, and the caller gets the outcome of that attempt.
\<close>

theorem C4_retries_every_failure:
  "0 < allowedAttempts options \<Longrightarrow>
     fst (retryWithBackoff fn options) = outcome (fn (last_attempt fn (allowedAttempts options))) \<and>
     calls (snd (retryWithBackoff fn options)) = last_attempt fn (allowedAttempts options) \<and>
     1 \<le> last_attempt fn (allowedAttempts options) \<and>
     last_attempt fn (allowedAttempts options) \<le> allowedAttempts options \<and>
     (\<forall>k. 1 \<le> k \<and> k < last_attempt fn (allowedAttempts options) \<longrightarrow> \<not> is_resolved (fn k)) \<and>
     (last_attempt fn (allowedAttempts options) < allowedAttempts options \<longrightarrow>
        is_resolved (fn (last_attempt fn (allowedAttempts options))))"
proof -
  assume pos: "0 < allowedAttempts options"
  define N where "N = allowedAttempts options"
  have one: "1 \<le> N" using pos by (simp add: N_def)
  have run: "retryWithBackoff fn options =
      retry_loop fn N
        (case maxDelay options of Some n \<Rightarrow> n | None \<Rightarrow> RETRY_CONFIG_maxDelay)
        (case factor options of Some n \<Rightarrow> n | None \<Rightarrow> RETRY_CONFIG_factor)
        (onRetry options) 1
        (case initialDelay options of Some n \<Rightarrow> n | None \<Rightarrow> RETRY_CONFIG_initialDelay)
        None \<lparr>calls = 0, notified = [], slept = []\<rparr>"
    by (simp add: retryWithBackoff_def N_def allowedAttempts_def Let_def)
  note loop = retry_loop_attempts[OF one, of fn _ _ _ _ None "\<lparr>calls = 0, notified = [], slept = []\<rparr>"]
  have a: "fst (retryWithBackoff fn options) = outcome (fn (last_attempt fn N))"
    unfolding run last_attempt_from using loop by blast
  have b: "calls (snd (retryWithBackoff fn options)) = last_attempt fn N"
    unfolding run last_attempt_from using loop by simp
  have c: "1 \<le> last_attempt fn N \<and> last_attempt fn N \<le> N"
    unfolding last_attempt_from using attempt_from_bounds[OF one] by blast
  have d: "\<forall>k. 1 \<le> k \<and> k < last_attempt fn N \<longrightarrow> \<not> is_resolved (fn k)"
  proof (cases "first_resolved fn N")
    case None
    then show ?thesis using first_resolved_None[OF None] by (simp add: last_attempt_def)
  next
    case (Some k)
    then show ?thesis using first_resolved_Some[OF Some] by (simp add: last_attempt_def)
  qed
  have e: "last_attempt fn N < N \<longrightarrow> is_resolved (fn (last_attempt fn N))"
  proof (cases "first_resolved fn N")
    case None
    then show ?thesis by (simp add: last_attempt_def)
  next
    case (Some k)
    then show ?thesis using first_resolved_Some[OF Some] by (simp add: last_attempt_def)
  qed
  from a b c d e show ?thesis unfolding N_def by blast
qed

theorem C4_retries_every_failure_witness:
  "0 < allowedAttempts no_options \<and>
   last_attempt flaky_fn (allowedAttempts no_options) = 2 \<and>
   fst (retryWithBackoff flaky_fn no_options) = outcome (flaky_fn 2) \<and>
   calls (snd (retryWithBackoff flaky_fn no_options)) = 2 \<and>
   ((1::nat) \<le> 1 \<and> (1::nat) < 2 \<and> \<not> is_resolved (flaky_fn 1)) \<and>
   ((2::nat) < allowedAttempts no_options \<and> is_resolved (flaky_fn 2))"
proof -
  have n: "allowedAttempts no_options = 3"
    by (simp add: allowedAttempts_def no_options_def RETRY_CONFIG_maxAttempts_def)
  have l: "last_attempt flaky_fn 3 = 2"
    by (simp add: last_attempt_def first_resolved_def flaky_fn_def is_resolved_def upt_conv_Cons)
  have h: "0 < allowedAttempts no_options" by (simp add: n)
  from C4_retries_every_failure [OF h, of flaky_fn] show ?thesis
    unfolding n l by simp
qed


section \<open>Properties of the agency statistics\<close>

lemma processAgency_walk:
  "processAgency agency results = fold store (visited agency) results"
  "processAgencies cs results = fold store (visited_list cs) results"
proof (induction agency results and cs results rule: processAgency_processAgencies.induct)
  case (1 agency results)
  show ?case
  proof (cases "agency_children agency")
    case None
    then show ?thesis by (simp add: store_def has_references_def Let_def)
  next
    case (Some cs)
    show ?thesis
    proof (cases "cs = []")
      case True
      then show ?thesis using Some by (simp add: store_def has_references_def Let_def)
    next
      case False
      then have "0 < length cs" by simp
      from "1.IH"[OF refl Some this] Some False show ?thesis
        by (simp add: store_def has_references_def Let_def)
    qed
  qed
next
  case (2 results)
  show ?case by simp
next
  case (3 child rest results)
  then show ?case by simp
qed

lemma fold_store_filter:
  "fold store xs m =
     fold (\<lambda>a. AList.update (agency_slug a) (agencyStat a)) (filter has_references xs) m"
  by (induction xs arbitrary: m) (simp_all add: store_def)

lemma agencyStats_emitting:
  "agencyStats agencies =
     fold (\<lambda>a. AList.update (agency_slug a) (agencyStat a)) (emitting agencies) []"
  by (simp add: agencyStats_def processAgency_walk fold_store_filter emitting_def)

lemma find_snoc:
  "find P (xs @ [x]) = (case find P xs of Some y \<Rightarrow> Some y | None \<Rightarrow> if P x then Some x else None)"
  by (induction xs) auto

lemma map_of_fold_update:
  "map_of (fold (\<lambda>a. AList.update (k a) (v a)) xs m) s =
     (case find (\<lambda>a. k a = s) (rev xs) of Some a \<Rightarrow> Some (v a) | None \<Rightarrow> map_of m s)"
  by (induction xs arbitrary: m) (auto simp: find_snoc update_conv' split: option.splits)

lemma keys_fold_update:
  "fst ` set (fold (\<lambda>a. AList.update (k a) (v a)) xs m) = k ` set xs \<union> fst ` set m"
  by (induction xs arbitrary: m) (auto simp: dom_update)

lemma distinct_fold_update:
  "distinct (map fst m) \<Longrightarrow> distinct (map fst (fold (\<lambda>a. AList.update (k a) (v a)) xs m))"
  by (induction xs arbitrary: m) (simp_all add: distinct_update)

lemma length_fold_update:
  "length (fold (\<lambda>a. AList.update (k a) (v a)) xs []) = card (k ` set xs)"
proof -
  let ?m = "fold (\<lambda>a. AList.update (k a) (v a)) xs []"
  have "distinct (map fst ?m)" by (rule distinct_fold_update) simp
  then have "length (map fst ?m) = card (set (map fst ?m))" by (simp only: distinct_card)
  then show ?thesis by (simp add: keys_fold_update)
qed

lemma map_of_agencyStats:
  "map_of (agencyStats agencies) s = map_option agencyStat (last_with_slug s (emitting agencies))"
  by (simp add: agencyStats_emitting map_of_fold_update last_with_slug_def split: option.splits)

lemma length_agencyStats:
  "length (agencyStats agencies) = card (agency_slug ` set (emitting agencies))"
  by (simp add: agencyStats_emitting length_fold_update)

lemma distinct_agencyStats: "distinct (map fst (agencyStats agencies))"
  unfolding agencyStats_emitting by (rule distinct_fold_update) simp

lemma stat_slug_agencyStat: "stat_slug (agencyStat a) = agency_slug a"
  by (simp add: agencyStat_def Let_def)

lemma last_with_slug_Some: "last_with_slug s nodes = Some a \<Longrightarrow> agency_slug a = s \<and> a \<in> set nodes"
  unfolding last_with_slug_def by (induction nodes) (auto simp: find_snoc split: option.splits if_splits)

lemma agencyStats_entry:
  assumes "st \<in> set (map snd (agencyStats agencies))"
  shows "map_of (agencyStats agencies) (stat_slug st) = Some st"
proof -
  from assms obtain k where p: "(k, st) \<in> set (agencyStats agencies)" by auto
  with distinct_agencyStats have m: "map_of (agencyStats agencies) k = Some st" by simp
  then obtain a where "last_with_slug k (emitting agencies) = Some a" "st = agencyStat a"
    by (auto simp: map_of_agencyStats)
  then have "stat_slug st = k" using last_with_slug_Some stat_slug_agencyStat by metis
  with m show ?thesis by simp
qed

lemma sort_by_titleCount:
  "js_sort (\<lambda>a b. int (titleCount b) - int (titleCount a)) xs =
   sort_key (\<lambda>e. - int (titleCount e)) xs"
  by (rule js_sort_sort_key) auto

lemma analyzeAgencyStats_fields:
  "totalAgencies (analyzeAgencyStats agencies ts) = length agencies"
  "agenciesWithReferences (analyzeAgencyStats agencies ts) = length (agencyStats agencies)"
  "totalTitles (analyzeAgencyStats agencies ts) = (case ts of Some l \<Rightarrow> length l | None \<Rightarrow> 50)"
  "averageTitlesPerAgency (analyzeAgencyStats agencies ts) =
     (if 0 < length (agencyStats agencies)
      then js_div (sum_list (map titleCount (map snd (agencyStats agencies))))
             (length (agencyStats agencies))
      else Finite 0)"
  "topAgencies (analyzeAgencyStats agencies ts) =
     take 10 (sort_key (\<lambda>e. - int (titleCount e)) (map snd (agencyStats agencies)))"
  by (simp_all add: analyzeAgencyStats_def Let_def foldl_plus sort_by_titleCount)


lemma card_image_distinct: "distinct (map f xs) \<Longrightarrow> card (f ` set xs) = length xs"
  using distinct_card[of "map f xs"] by simp

text \<open>
  C5, amended. \<open>totalAgencies\<close> is the number of roots; \<open>agenciesWithReferences\<close> is the
  number of records in the result mapping, that is the number of distinct slugs among the
  visited nodes whose distinct-title set is not empty, which is the number of these nodes when
  their slugs are pairwise distinct; \<open>totalTitles\<close> is the length of the registry, or 50
  without a registry.
\<close>

theorem C5_forest_totals:
  "totalAgencies (analyzeAgencyStats agencies ts) = length agencies \<and>
   agenciesWithReferences (analyzeAgencyStats agencies ts) = length (agencyStats agencies) \<and>
   agenciesWithReferences (analyzeAgencyStats agencies ts) =
     card (agency_slug ` set (emitting agencies)) \<and>
   (distinct (map agency_slug (emitting agencies)) \<longrightarrow>
      agenciesWithReferences (analyzeAgencyStats agencies ts) = length (emitting agencies)) \<and>
   totalTitles (analyzeAgencyStats agencies ts) = (case ts of Some l \<Rightarrow> length l | None \<Rightarrow> 50)"
  by (simp add: analyzeAgencyStats_fields length_agencyStats card_image_distinct)

lemmas agency_eval = agencyStats_def processAgency.simps referenceSets_def addReference_def
  set_add_def agencyStat_def js_sort_def agency_node_def lit_def Let_def emitting_def
  has_references_def

lemma emitting_family_forest:
  "emitting family_forest = [agency_node ''a'' 5 (Some [agency_node ''b'' 10 None]), agency_node ''b'' 10 None]"
  by (simp add: family_forest_def agency_eval)

lemma emitting_twin_forest:
  "emitting twin_forest = [agency_node ''a'' 5 None, agency_node ''a'' 6 None]"
  by (simp add: twin_forest_def agency_eval)

theorem C5_forest_totals_witness:
  "distinct (map agency_slug (emitting family_forest)) \<and>
   length (emitting family_forest) = 2 \<and>
   agenciesWithReferences (analyzeAgencyStats family_forest None) = 2 \<and>
   totalAgencies (analyzeAgencyStats family_forest None) = 1 \<and>
   totalTitles (analyzeAgencyStats family_forest None) = 50"
proof -
  have d: "distinct (map agency_slug (emitting family_forest))"
    by (simp add: emitting_family_forest agency_node_def lit_def)
  have l: "length (emitting family_forest) = 2" by (simp add: emitting_family_forest)
  have n: "length family_forest = 1" by (simp add: family_forest_def)
  from C5_forest_totals [of family_forest None] d l n show ?thesis by simp
qed

text \<open>
  C5, as stated, fails: two visited nodes with references that share a slug leave one record,
  not one record per node.
\<close>

theorem C5_duplicate_slug_counterexample:
  "emitting twin_forest = twin_forest \<and> length twin_forest = 2 \<and>
   agenciesWithReferences (analyzeAgencyStats twin_forest None) = 1"
  by (simp add: twin_forest_def analyzeAgencyStats_def agency_eval)

text \<open>
  C9. \<open>averageTitlesPerAgency\<close> is the sum of the \<open>titleCount\<close> of the records divided by
  \<open>agenciesWithReferences\<close> when that is positive, and 0 otherwise; it is a finite number,
  never \<open>NaN\<close> or \<open>Infinity\<close>.
\<close>

theorem C9_average_titles:
  "averageTitlesPerAgency (analyzeAgencyStats agencies ts) =
     (if 0 < agenciesWithReferences (analyzeAgencyStats agencies ts)
      then Finite (of_nat (sum_list (map titleCount (map snd (agencyStats agencies)))) /
                   of_nat (agenciesWithReferences (analyzeAgencyStats agencies ts)))
      else Finite 0) \<and>
   averageTitlesPerAgency (analyzeAgencyStats agencies ts) \<noteq> NaN \<and>
   averageTitlesPerAgency (analyzeAgencyStats agencies ts) \<noteq> Infinity"
  by (simp add: analyzeAgencyStats_fields js_div_def)

theorem C9_average_titles_witness:
  "0 < agenciesWithReferences (analyzeAgencyStats family_forest None) \<and>
   averageTitlesPerAgency (analyzeAgencyStats family_forest None) = Finite 1 \<and>
   \<not> 0 < agenciesWithReferences (analyzeAgencyStats [] None) \<and>
   averageTitlesPerAgency (analyzeAgencyStats [] None) = Finite 0"
proof -
  have a: "agenciesWithReferences (analyzeAgencyStats family_forest None) = 2"
    by (simp add: family_forest_def analyzeAgencyStats_def agency_eval)
  have s: "sum_list (map titleCount (map snd (agencyStats family_forest))) = 2"
    by (simp add: family_forest_def agency_eval)
  have e: "agenciesWithReferences (analyzeAgencyStats [] None) = 0"
    by (simp add: analyzeAgencyStats_def agency_eval)
  from C9_average_titles [of family_forest None] C9_average_titles [of "[]" None]
  show ?thesis unfolding a s e by simp
qed

lemma find_first_match:
  "\<forall>u \<in> set us. \<not> P u \<Longrightarrow> P b \<Longrightarrow> find P (us @ b # vs) = Some b"
  by (induction us) auto

lemma last_with_slug_later:
  assumes "agency_slug b = s" and "\<forall>c \<in> set zs. agency_slug c \<noteq> s"
  shows "last_with_slug s (xs @ b # zs) = Some b"
proof -
  have "rev (xs @ b # zs) = rev zs @ b # rev xs" by simp
  moreover have "find (\<lambda>a. agency_slug a = s) (rev zs @ b # rev xs) = Some b"
    using assms by (intro find_first_match) auto
  ultimately show ?thesis by (simp only: last_with_slug_def)
qed

text \<open>
  C7. The record that the mapping holds for a slug is the record of the last visited node with
  that slug among the nodes that store a record: when two such nodes share a slug and no later
  one has it, the record of the later node has replaced the record of the earlier one. The
  lookup by slug and the \<open>topAgencies\<close> of the result read the same mapping.
\<close>

theorem C7_last_write_wins:
  "map_of (agencyStats agencies) s = map_option agencyStat (last_with_slug s (emitting agencies)) \<and>
   getAgencyBySlug agencies s = map_option agencyStat (last_with_slug s (emitting agencies)) \<and>
   (\<forall>st \<in> set (topAgencies (analyzeAgencyStats agencies ts)).
      Some st = map_option agencyStat (last_with_slug (stat_slug st) (emitting agencies))) \<and>
   (\<forall>xs a ys b zs.
      emitting agencies = xs @ a # ys @ b # zs \<and> agency_slug a = agency_slug b \<and>
      (\<forall>c \<in> set zs. agency_slug c \<noteq> agency_slug b) \<longrightarrow>
        getAgencyBySlug agencies (agency_slug a) = Some (agencyStat b))"
proof (intro conjI ballI allI impI)
  show "map_of (agencyStats agencies) s = map_option agencyStat (last_with_slug s (emitting agencies))"
    by (rule map_of_agencyStats)
  show "getAgencyBySlug agencies s = map_option agencyStat (last_with_slug s (emitting agencies))"
    by (simp add: getAgencyBySlug_def map_of_agencyStats)
next
  fix st assume "st \<in> set (topAgencies (analyzeAgencyStats agencies ts))"
  then have "st \<in> set (take 10 (sort_key (\<lambda>e. - int (titleCount e)) (map snd (agencyStats agencies))))"
    by (simp only: analyzeAgencyStats_fields)
  then have "st \<in> set (sort_key (\<lambda>e. - int (titleCount e)) (map snd (agencyStats agencies)))"
    by (rule in_set_takeD)
  then have "st \<in> set (map snd (agencyStats agencies))" by simp
  from agencyStats_entry[OF this]
  show "Some st = map_option agencyStat (last_with_slug (stat_slug st) (emitting agencies))"
    by (simp only: map_of_agencyStats)
next
  fix xs a ys b zs
  assume h: "emitting agencies = xs @ a # ys @ b # zs \<and> agency_slug a = agency_slug b \<and>
      (\<forall>c \<in> set zs. agency_slug c \<noteq> agency_slug b)"
  then have "emitting agencies = (xs @ a # ys) @ b # zs" by simp
  moreover have "last_with_slug (agency_slug a) ((xs @ a # ys) @ b # zs) = Some b"
    using h by (intro last_with_slug_later) auto
  ultimately show "getAgencyBySlug agencies (agency_slug a) = Some (agencyStat b)"
    by (simp add: getAgencyBySlug_def map_of_agencyStats)
qed

theorem C7_last_write_wins_witness:
  "emitting twin_forest = [] @ agency_node ''a'' 5 None # [] @ agency_node ''a'' 6 None # [] \<and>
   agency_slug (agency_node ''a'' 5 None) = agency_slug (agency_node ''a'' 6 None) \<and>
   getAgencyBySlug twin_forest (agency_slug (agency_node ''a'' 5 None)) =
     Some (agencyStat (agency_node ''a'' 6 None)) \<and>
   agencyStat (agency_node ''a'' 6 None) \<in> set (topAgencies (analyzeAgencyStats twin_forest None)) \<and>
   stat_titles (agencyStat (agency_node ''a'' 6 None)) = [6]"
proof -
  have e: "emitting twin_forest = [] @ agency_node ''a'' 5 None # [] @ agency_node ''a'' 6 None # []"
    by (simp add: emitting_twin_forest)
  have s: "agency_slug (agency_node ''a'' 5 None) = agency_slug (agency_node ''a'' 6 None)"
    by (simp add: agency_node_def)
  have t: "agencyStat (agency_node ''a'' 6 None) \<in> set (topAgencies (analyzeAgencyStats twin_forest None))"
    by (simp add: twin_forest_def analyzeAgencyStats_def agency_eval)
  have v: "stat_titles (agencyStat (agency_node ''a'' 6 None)) = [6]"
    by (simp add: agency_eval)
  from C7_last_write_wins [of twin_forest "agency_slug (agency_node ''a'' 5 None)" None] e s
  have "getAgencyBySlug twin_forest (agency_slug (agency_node ''a'' 5 None)) =
     Some (agencyStat (agency_node ''a'' 6 None))"
    by (metis empty_iff list.set(1))
  with e s t v show ?thesis by blast
qed

end
